theory Spec2Isabelle
  imports Main "HOL-Library.Word" "HOL-Library.Multiset"
begin

section \<open>The PPU device plugin: data model\<close>

text \<open>
  The plugin keeps its registry in a Go map \<^verbatim>\<open>map[string]*v1beta1.Device\<close>: the
  values are pointers, and the same pointers travel over the \<^verbatim>\<open>health\<close> channel.
  The model therefore has an explicit store of \<^verbatim>\<open>Device\<close> objects, and the registry
  maps an id to the address of its object.

  \<^verbatim>\<open>Device.Health\<close> is a Go string; \<^verbatim>\<open>v1beta1.Healthy\<close> and
  \<^verbatim>\<open>v1beta1.Unhealthy\<close> are the string constants of the kubelet API package, which
  is not part of this repository. The source only ever compares a health with
  \<^verbatim>\<open>v1beta1.Healthy\<close>.
\<close>

type_synonym addr = nat

record Device =
  ID :: string
  Health :: string

definition Healthy :: string where
  "Healthy = ''Healthy''"

definition Unhealthy :: string where
  "Unhealthy = ''Unhealthy''"

text \<open>
  The store: \<open>cells\<close> holds the object at every address, \<open>fresh\<close> is the next address
  that \<^verbatim>\<open>&v1beta1.Device{...}\<close> hands out. Pointers are never nil in the model: the
  source never stores or sends a nil pointer.
\<close>

record store =
  cells :: "addr \<Rightarrow> Device"
  fresh :: addr

definition new_Device :: "Device \<Rightarrow> store \<Rightarrow> addr \<times> store" where
  "new_Device d s = (fresh s, s\<lparr>cells := (cells s)(fresh s := d), fresh := Suc (fresh s)\<rparr>)"

text \<open>
  The fields of \<^verbatim>\<open>PPUDevicePlugin\<close> that the operations below read or write. The
  struct has no lock field. The gRPC server and the socket name are left out; the
  two channels appear as the events the handlers receive.
\<close>

record PPUDevicePlugin =
  resourceName :: string
  deviceCount :: int
  socketPath :: string
  devices :: "string \<rightharpoonup> addr"

definition NewPPUDevicePlugin :: "string \<Rightarrow> int \<Rightarrow> string \<Rightarrow> PPUDevicePlugin" where
  "NewPPUDevicePlugin rn dc sp =
     \<lparr>resourceName = rn, deviceCount = dc, socketPath = sp, devices = Map.empty\<rparr>"

text \<open>The object a registry id points to, and the registry as the host sees it.\<close>

definition registry :: "PPUDevicePlugin \<Rightarrow> store \<Rightarrow> string \<rightharpoonup> Device" where
  "registry p s = (\<lambda>k. case devices p k of None \<Rightarrow> None | Some a \<Rightarrow> Some (cells s a))"

datatype error = Error string

subsection \<open>Decimal formatting and joining\<close>

text \<open>
  \<^verbatim>\<open>fmt.Sprintf("%d", i)\<close> of the Go library: the decimal digits of \<open>i\<close>, most
  significant first, with a minus sign when \<open>i\<close> is negative.
\<close>

definition digit_char :: "nat \<Rightarrow> char" where
  "digit_char d = ''0123456789'' ! d"

function fmt_nat :: "nat \<Rightarrow> string" where
  "fmt_nat n = (if n < 10 then [digit_char n] else fmt_nat (n div 10) @ [digit_char (n mod 10)])"
  by pat_completeness auto
termination
  by (relation "measure id") auto

declare fmt_nat.simps [simp del]

definition Sprintf_d :: "int \<Rightarrow> string" where
  "Sprintf_d i = (if i < 0 then CHR ''-'' # fmt_nat (nat (- i)) else fmt_nat (nat i))"

text \<open>\<^verbatim>\<open>strings.Join(elems, sep)\<close>.\<close>

fun strings_Join :: "string list \<Rightarrow> string \<Rightarrow> string" where
  "strings_Join [] sep = []"
| "strings_Join [e] sep = e"
| "strings_Join (e # es) sep = e @ sep @ strings_Join es sep"

text \<open>Reading a decimal back, used to show that formatting loses nothing.\<close>

definition digit_val :: "char \<Rightarrow> nat" where
  "digit_val c = of_char c - 48"

definition parse_nat :: "string \<Rightarrow> nat" where
  "parse_nat s = foldl (\<lambda>a c. 10 * a + digit_val c) 0 s"

section \<open>Registry initialisation\<close>

text \<open>
  \<^verbatim>\<open>
  for i := 0; i < p.deviceCount; i++ {
      deviceID := fmt.Sprintf("ppu-%d", i)
      device := &v1beta1.Device{ID: deviceID, Health: v1beta1.Healthy}
      p.devices[deviceID] = device
  }
  return nil
  \<close>
  \<^verbatim>\<open>deviceCount\<close> is a Go \<^verbatim>\<open>int\<close>; the counter stays below it, so it never wraps.
\<close>

definition ppu_id :: "int \<Rightarrow> string" where
  "ppu_id i = ''ppu-'' @ Sprintf_d i"

function initDevices_loop :: "int \<Rightarrow> PPUDevicePlugin \<Rightarrow> store \<Rightarrow> PPUDevicePlugin \<times> store" where
  "initDevices_loop i p s =
     (if i < deviceCount p then
        (let deviceID = ppu_id i;
             (device, s') = new_Device \<lparr>ID = deviceID, Health = Healthy\<rparr> s
         in initDevices_loop (i + 1) (p\<lparr>devices := (devices p)(deviceID \<mapsto> device)\<rparr>) s')
      else (p, s))"
  by pat_completeness auto
termination
  by (relation "measure (\<lambda>(i, p, s). nat (deviceCount p - i))") auto

declare initDevices_loop.simps [simp del]

definition initDevices :: "PPUDevicePlugin \<Rightarrow> store \<Rightarrow> error + PPUDevicePlugin \<times> store" where
  "initDevices p s = Inr (initDevices_loop 0 p s)"

text \<open>A store in which nothing has been allocated yet.\<close>

definition empty_store :: store where
  "empty_store = \<lparr>cells = (\<lambda>a. \<lparr>ID = [], Health = []\<rparr>), fresh = 0\<rparr>"

section \<open>Allocate\<close>

text \<open>
  The request and response messages of the kubelet API, with the fields the source
  reads or fills. A response never holds a mount.
\<close>

record ContainerAllocateRequest =
  DevicesIDs :: "string list"

record AllocateRequest =
  ContainerRequests :: "ContainerAllocateRequest list"

record Mount =
  ContainerPath :: string
  HostPath :: string
  ReadOnly :: bool

record DeviceSpec =
  ContainerPath :: string
  HostPath :: string
  Permissions :: string

record ContainerAllocateResponse =
  Envs :: "string \<rightharpoonup> string"
  Mounts :: "Mount list"
  Devices :: "DeviceSpec list"
  Annotations :: "string \<rightharpoonup> string"

record AllocateResponse =
  ContainerResponses :: "ContainerAllocateResponse list"

text \<open>
  \<^verbatim>\<open>
  allocatedDevices := []string{}
  for _, deviceID := range containerRequest.DevicesIDs {
      if device, exists := p.devices[deviceID]; exists {
          if device.Health == v1beta1.Healthy {
              allocatedDevices = append(allocatedDevices, deviceID)
          }
      }
  }
  \<close>
\<close>

fun allocatedDevices_loop ::
  "PPUDevicePlugin \<Rightarrow> store \<Rightarrow> string list \<Rightarrow> string list \<Rightarrow> string list" where
  "allocatedDevices_loop p s allocatedDevices [] = allocatedDevices"
| "allocatedDevices_loop p s allocatedDevices (deviceID # rest) =
     (case devices p deviceID of
        Some device \<Rightarrow>
          if Health (cells s device) = Healthy
          then allocatedDevices_loop p s (allocatedDevices @ [deviceID]) rest
          else allocatedDevices_loop p s allocatedDevices rest
      | None \<Rightarrow> allocatedDevices_loop p s allocatedDevices rest)"

text \<open>The second loop of the body: one device spec appended per allocated id.\<close>

fun deviceSpec_loop :: "DeviceSpec list \<Rightarrow> string list \<Rightarrow> DeviceSpec list" where
  "deviceSpec_loop specs [] = specs"
| "deviceSpec_loop specs (deviceID # rest) =
     deviceSpec_loop
       (specs @ [\<lparr>ContainerPath = ''/dev/'' @ deviceID, HostPath = ''/dev/null'',
                  Permissions = ''rw''\<rparr>]) rest"

definition containerAllocate ::
  "PPUDevicePlugin \<Rightarrow> store \<Rightarrow> ContainerAllocateRequest \<Rightarrow> ContainerAllocateResponse" where
  "containerAllocate p s containerRequest =
     (let allocatedDevices = allocatedDevices_loop p s [] (DevicesIDs containerRequest);
          containerResponse =
            \<lparr>Envs = [''PPU_DEVICE_COUNT'' \<mapsto> Sprintf_d (int (length allocatedDevices)),
                     ''PPU_ALLOCATED_DEVICES'' \<mapsto> strings_Join allocatedDevices '',''],
             Mounts = [],
             Devices = [],
             Annotations = [''ppu.alibabacloud.com/allocated-devices'' \<mapsto>
                              strings_Join allocatedDevices '','']\<rparr>
      in containerResponse\<lparr>Devices :=
           deviceSpec_loop (ContainerAllocateResponse.Devices containerResponse) allocatedDevices\<rparr>)"

fun Allocate_loop ::
  "PPUDevicePlugin \<Rightarrow> store \<Rightarrow> ContainerAllocateResponse list \<Rightarrow>
   ContainerAllocateRequest list \<Rightarrow> ContainerAllocateResponse list" where
  "Allocate_loop p s responses [] = responses"
| "Allocate_loop p s responses (containerRequest # rest) =
     Allocate_loop p s (responses @ [containerAllocate p s containerRequest]) rest"

text \<open>
  \<^verbatim>\<open>Allocate\<close> returns a response and a Go error; its only return statement gives
  the error \<^verbatim>\<open>nil\<close>. It reads the registry and writes nothing, so it takes the
  plugin and the store and returns no new store.
\<close>

definition Allocate :: "PPUDevicePlugin \<Rightarrow> store \<Rightarrow> AllocateRequest \<Rightarrow> error + AllocateResponse" where
  "Allocate p s request =
     Inr \<lparr>ContainerResponses =
            Allocate_loop p s [] (AllocateRequest.ContainerRequests request)\<rparr>"

text \<open>The test the first loop applies to a requested id.\<close>

definition usable :: "PPUDevicePlugin \<Rightarrow> store \<Rightarrow> string \<Rightarrow> bool" where
  "usable p s deviceID =
     (case registry p s deviceID of None \<Rightarrow> False | Some d \<Rightarrow> Health d = Healthy)"

section \<open>GetPreferredAllocation\<close>

text \<open>\<^verbatim>\<open>AllocationSize\<close> is an \<^verbatim>\<open>int32\<close>, converted with \<^verbatim>\<open>int(...)\<close>.\<close>

record ContainerPreferredAllocationRequest =
  AvailableDeviceIDs :: "string list"
  MustIncludeDeviceIDs :: "string list"
  AllocationSize :: "32 word"

record PreferredAllocationRequest =
  ContainerRequests :: "ContainerPreferredAllocationRequest list"

record ContainerPreferredAllocationResponse =
  DeviceIDs :: "string list"

record PreferredAllocationResponse =
  ContainerResponses :: "ContainerPreferredAllocationResponse list"

text \<open>
  \<^verbatim>\<open>
  for _, deviceID := range containerRequest.MustIncludeDeviceIDs {
      selectedDeviceIDs = append(selectedDeviceIDs, deviceID)
  }
  \<close>
\<close>

fun mustInclude_loop :: "string list \<Rightarrow> string list \<Rightarrow> string list" where
  "mustInclude_loop selectedDeviceIDs [] = selectedDeviceIDs"
| "mustInclude_loop selectedDeviceIDs (deviceID # rest) =
     mustInclude_loop (selectedDeviceIDs @ [deviceID]) rest"

text \<open>
  \<^verbatim>\<open>
  alreadySelected := false
  for _, selectedID := range selectedDeviceIDs {
      if selectedID == deviceID { alreadySelected = true; break }
  }
  \<close>
\<close>

fun alreadySelected_loop :: "string \<Rightarrow> string list \<Rightarrow> bool" where
  "alreadySelected_loop deviceID [] = False"
| "alreadySelected_loop deviceID (selectedID # rest) =
     (if selectedID = deviceID then True else alreadySelected_loop deviceID rest)"

text \<open>
  \<^verbatim>\<open>
  for _, deviceID := range containerRequest.AvailableDeviceIDs {
      if needed <= 0 { break }
      ... alreadySelected ...
      if !alreadySelected {
          selectedDeviceIDs = append(selectedDeviceIDs, deviceID)
          needed--
      }
  }
  \<close>
  \<^verbatim>\<open>needed\<close> is a Go \<^verbatim>\<open>int\<close>: an \<^verbatim>\<open>int32\<close> minus a slice length, which stays far
  inside 64 bits.
\<close>

fun available_loop :: "int \<Rightarrow> string list \<Rightarrow> string list \<Rightarrow> string list" where
  "available_loop needed selectedDeviceIDs [] = selectedDeviceIDs"
| "available_loop needed selectedDeviceIDs (deviceID # rest) =
     (if needed \<le> 0 then selectedDeviceIDs
      else if \<not> alreadySelected_loop deviceID selectedDeviceIDs
           then available_loop (needed - 1) (selectedDeviceIDs @ [deviceID]) rest
           else available_loop needed selectedDeviceIDs rest)"

definition containerPreferred ::
  "ContainerPreferredAllocationRequest \<Rightarrow> ContainerPreferredAllocationResponse" where
  "containerPreferred containerRequest =
     (let selectedDeviceIDs = mustInclude_loop [] (MustIncludeDeviceIDs containerRequest);
          needed = sint (AllocationSize containerRequest) - int (length selectedDeviceIDs)
      in \<lparr>DeviceIDs =
            available_loop needed selectedDeviceIDs (AvailableDeviceIDs containerRequest)\<rparr>)"

fun GetPreferredAllocation_loop ::
  "ContainerPreferredAllocationResponse list \<Rightarrow> ContainerPreferredAllocationRequest list \<Rightarrow>
   ContainerPreferredAllocationResponse list" where
  "GetPreferredAllocation_loop responses [] = responses"
| "GetPreferredAllocation_loop responses (containerRequest # rest) =
     GetPreferredAllocation_loop (responses @ [containerPreferred containerRequest]) rest"

text \<open>The method never touches the plugin; the plugin argument is kept as in the source.\<close>

definition GetPreferredAllocation ::
  "PPUDevicePlugin \<Rightarrow> PreferredAllocationRequest \<Rightarrow> error + PreferredAllocationResponse" where
  "GetPreferredAllocation p request =
     Inr \<lparr>ContainerResponses =
            GetPreferredAllocation_loop [] (PreferredAllocationRequest.ContainerRequests request)\<rparr>"

text \<open>
  The selection as the specification words it: the result starts as the must-include
  ids in the order given; \<open>remaining\<close> is the desired count minus the length of the
  result; the available ids are walked in order, each one not yet in the result is
  appended and \<open>remaining\<close> decremented, and the walk stops as soon as
  \<open>remaining \<le> 0\<close>.
\<close>

fun spec_walk :: "string list \<Rightarrow> int \<Rightarrow> string list \<Rightarrow> string list" where
  "spec_walk result remaining available =
     (if remaining \<le> 0 then result
      else case available of
             [] \<Rightarrow> result
           | x # xs \<Rightarrow>
               if x \<in> set result then spec_walk result remaining xs
               else spec_walk (result @ [x]) (remaining - 1) xs)"

declare spec_walk.simps [simp del]

definition spec_preferred :: "string list \<Rightarrow> string list \<Rightarrow> int \<Rightarrow> string list" where
  "spec_preferred available must_include desired_count =
     spec_walk must_include (desired_count - int (length must_include)) available"

section \<open>ListAndWatch\<close>

text \<open>
  A \<^verbatim>\<open>range\<close> over a Go map visits every key once, in an order the language leaves
  unspecified and that may differ from one loop to the next. A loop over
  \<^verbatim>\<open>p.devices\<close> therefore takes the order of that run as a list of keys.
\<close>

definition map_order :: "PPUDevicePlugin \<Rightarrow> string list \<Rightarrow> bool" where
  "map_order p ks = (distinct ks \<and> set ks = dom (devices p))"

text \<open>
  \<^verbatim>\<open>
  devices := make([]*v1beta1.Device, 0, len(p.devices))
  for _, device := range p.devices { devices = append(devices, device) }
  \<close>
  The list holds pointers; \<^verbatim>\<open>stream.Send\<close> writes out the objects they point to.
\<close>

fun snapshot_loop :: "PPUDevicePlugin \<Rightarrow> addr list \<Rightarrow> string list \<Rightarrow> addr list" where
  "snapshot_loop p ds [] = ds"
| "snapshot_loop p ds (k # ks) =
     (case devices p k of
        Some device \<Rightarrow> snapshot_loop p (ds @ [device]) ks
      | None \<Rightarrow> snapshot_loop p ds ks)"

record ListAndWatchResponse =
  Devices :: "addr list"

definition snapshot :: "PPUDevicePlugin \<Rightarrow> string list \<Rightarrow> ListAndWatchResponse" where
  "snapshot p ks = \<lparr>Devices = snapshot_loop p [] ks\<rparr>"

definition wire :: "store \<Rightarrow> ListAndWatchResponse \<Rightarrow> Device list" where
  "wire s response = map (cells s) (ListAndWatchResponse.Devices response)"

text \<open>
  The \<^verbatim>\<open>case device := <-p.health\<close> branch, up to the rebuilt list:
  \<^verbatim>\<open>
  if existingDevice, exists := p.devices[device.ID]; exists {
      existingDevice.Health = device.Health
  }
  \<close>
\<close>

definition health_update :: "PPUDevicePlugin \<Rightarrow> store \<Rightarrow> addr \<Rightarrow> store" where
  "health_update p s device =
     (case devices p (ID (cells s device)) of
        Some existingDevice \<Rightarrow>
          s\<lparr>cells := (cells s)
               (existingDevice := (cells s existingDevice)\<lparr>Health := Health (cells s device)\<rparr>)\<rparr>
      | None \<Rightarrow> s)"

text \<open>
  What the select loop can receive: a pointer from the \<^verbatim>\<open>health\<close> channel, together
  with the map order of the rebuilt list and the result of \<^verbatim>\<open>stream.Send\<close>; or the
  closing of \<^verbatim>\<open>stop\<close>. The session is run on a finite list of such events; when the
  list is used up the session is blocked in the select.
\<close>

datatype select_event = HealthRecv addr "string list" "error option" | StopRecv

datatype session_end = Returned "error option" | Blocked

fun ListAndWatch_loop ::
  "PPUDevicePlugin \<Rightarrow> store \<Rightarrow> Device list list \<Rightarrow> select_event list \<Rightarrow>
   store \<times> Device list list \<times> session_end" where
  "ListAndWatch_loop p s sent [] = (s, sent, Blocked)"
| "ListAndWatch_loop p s sent (StopRecv # rest) = (s, sent, Returned None)"
| "ListAndWatch_loop p s sent (HealthRecv device ks send_result # rest) =
     (let s' = health_update p s device;
          updateResponse = snapshot p ks
      in case send_result of
           Some err \<Rightarrow> (s', sent, Returned (Some err))
         | None \<Rightarrow> ListAndWatch_loop p s' (sent @ [wire s' updateResponse]) rest)"

definition ListAndWatch ::
  "PPUDevicePlugin \<Rightarrow> store \<Rightarrow> string list \<Rightarrow> error option \<Rightarrow> select_event list \<Rightarrow>
   store \<times> Device list list \<times> session_end" where
  "ListAndWatch p s ks send_result events =
     (let response = snapshot p ks
      in case send_result of
           Some err \<Rightarrow> (s, [], Returned (Some err))
         | None \<Rightarrow> ListAndWatch_loop p s [wire s response] events)"

section \<open>The health check\<close>

text \<open>
  The body of the \<^verbatim>\<open>ticker.C\<close> case:
  \<^verbatim>\<open>
  for deviceID, device := range p.devices {
      if device.Health != v1beta1.Healthy {
          device.Health = v1beta1.Healthy
          select {
          case p.health <- device:
          default:
          }
      }
  }
  \<close>
  The \<^verbatim>\<open>health\<close> channel is unbuffered, so the send goes through only if a receiver
  is waiting at that moment: \<open>ready deviceID\<close> says whether one is when the send for
  \<open>deviceID\<close> is tried. The log records each attempt and how it ended.
\<close>

datatype send_attempt = Delivered addr | Skipped addr

fun healthCheck_loop ::
  "PPUDevicePlugin \<Rightarrow> (string \<Rightarrow> bool) \<Rightarrow> store \<Rightarrow> send_attempt list \<Rightarrow> string list \<Rightarrow>
   store \<times> send_attempt list" where
  "healthCheck_loop p ready s log [] = (s, log)"
| "healthCheck_loop p ready s log (deviceID # ks) =
     (case devices p deviceID of
        None \<Rightarrow> healthCheck_loop p ready s log ks
      | Some device \<Rightarrow>
          if Health (cells s device) \<noteq> Healthy then
            healthCheck_loop p ready
              (s\<lparr>cells := (cells s)(device := (cells s device)\<lparr>Health := Healthy\<rparr>)\<rparr>)
              (log @ [if ready deviceID then Delivered device else Skipped device]) ks
          else healthCheck_loop p ready s log ks)"

definition healthCheck_tick ::
  "PPUDevicePlugin \<Rightarrow> (string \<Rightarrow> bool) \<Rightarrow> string list \<Rightarrow> store \<Rightarrow> store \<times> send_attempt list" where
  "healthCheck_tick p ready ks s = healthCheck_loop p ready s [] ks"

text \<open>The address an attempt was made for.\<close>

fun attempt_addr :: "send_attempt \<Rightarrow> addr" where
  "attempt_addr (Delivered a) = a"
| "attempt_addr (Skipped a) = a"

section \<open>Observations and example states\<close>

text \<open>
  The ids a container response binds, read back from its device specs (each spec's
  container path is \<^verbatim>\<open>/dev/\<close> followed by the id).
\<close>

definition allocated_ids :: "ContainerAllocateResponse \<Rightarrow> string list" where
  "allocated_ids response =
     map (\<lambda>spec. drop 5 (ContainerPath spec)) (ContainerAllocateResponse.Devices response)"

text \<open>
  A concrete state for the examples: the registry of two devices, as
  \<^verbatim>\<open>initDevices\<close> builds it, and a request of two containers.
\<close>

definition example_plugin :: PPUDevicePlugin where
  "example_plugin =
     \<lparr>resourceName = ''alibabacloud.com/ppu'', deviceCount = 2, socketPath = ''/tmp'',
      devices = [''ppu-0'' \<mapsto> 0, ''ppu-1'' \<mapsto> 1]\<rparr>"

definition example_store :: store where
  "example_store =
     \<lparr>cells = (cells empty_store)
        (0 := \<lparr>ID = ''ppu-0'', Health = Healthy\<rparr>, 1 := \<lparr>ID = ''ppu-1'', Health = Healthy\<rparr>),
      fresh = 2\<rparr>"

definition example_request :: AllocateRequest where
  "example_request =
     \<lparr>AllocateRequest.ContainerRequests =
        [\<lparr>DevicesIDs = [''ppu-9'']\<rparr>, \<lparr>DevicesIDs = [''ppu-0'', ''ppu-1'', ''ppu-0'']\<rparr>]\<rparr>"

text \<open>
  A preferred-allocation request whose must-include list repeats an id and is longer
  than the allocation size.
\<close>

definition repeated_must_request :: ContainerPreferredAllocationRequest where
  "repeated_must_request =
     \<lparr>AvailableDeviceIDs = [''b''], MustIncludeDeviceIDs = [''a'', ''a''], AllocationSize = 1\<rparr>"

text \<open>The example registry with \<open>ppu-1\<close> marked Unhealthy.\<close>

definition sick_store :: store where
  "sick_store =
     example_store\<lparr>cells := (cells example_store)(1 := \<lparr>ID = ''ppu-1'', Health = Unhealthy\<rparr>)\<rparr>"

text \<open>
  Every registry object carries the id it is stored under. \<^verbatim>\<open>initDevices\<close> builds
  the registry that way (\<^verbatim>\<open>ID: deviceID\<close> and \<^verbatim>\<open>p.devices[deviceID] = device\<close>), and
  no later statement assigns to an \<^verbatim>\<open>ID\<close> field or to the map.
\<close>

definition keyed :: "PPUDevicePlugin \<Rightarrow> store \<Rightarrow> bool" where
  "keyed p s = (\<forall>k a. devices p k = Some a \<longrightarrow> ID (cells s a) = k)"

text \<open>The attempt the tick makes for a registry id, which the map order guarantees is present.\<close>

definition attempt_for :: "PPUDevicePlugin \<Rightarrow> (string \<Rightarrow> bool) \<Rightarrow> string \<Rightarrow> send_attempt" where
  "attempt_for p ready k =
     (if ready k then Delivered (the (devices p k)) else Skipped (the (devices p k)))"

text \<open>
  A received event is the registry's own object when the id it carries leads, in the
  registry, to that very object.
\<close>

definition own_event :: "PPUDevicePlugin \<Rightarrow> store \<Rightarrow> select_event \<Rightarrow> bool" where
  "own_event p s e =
     (case e of
        HealthRecv device ks send_result \<Rightarrow> devices p (ID (cells s device)) = Some device
      | StopRecv \<Rightarrow> True)"

section \<open>Properties of the formatting functions\<close>

lemma digit_val_char: "d < 10 \<Longrightarrow> digit_val (digit_char d) = d"
proof -
  assume "d < 10"
  then have "d \<in> {0, 1, 2, 3, 4, 5, 6, 7, 8, 9}" by auto
  then show ?thesis by (auto simp: digit_val_def digit_char_def)
qed

lemma parse_nat_fmt_nat: "parse_nat (fmt_nat n) = n"
proof (induction n rule: fmt_nat.induct)
  case (1 n)
  show ?case
  proof (cases "n < 10")
    case True
    then show ?thesis
      by (simp add: fmt_nat.simps [of n] parse_nat_def digit_val_char)
  next
    case False
    with 1 show ?thesis
      by (simp add: fmt_nat.simps [of n] parse_nat_def digit_val_char)
  qed
qed

lemma fmt_nat_inj: "fmt_nat a = fmt_nat b \<Longrightarrow> a = b"
  by (metis parse_nat_fmt_nat)

lemma fmt_nat_0: "fmt_nat 0 = ''0''"
  by (simp add: fmt_nat.simps [of 0] digit_char_def)

lemma Sprintf_d_nonneg: "0 \<le> i \<Longrightarrow> Sprintf_d i = fmt_nat (nat i)"
  by (simp add: Sprintf_d_def)

lemma ppu_id_inj: "0 \<le> i \<Longrightarrow> 0 \<le> j \<Longrightarrow> ppu_id i = ppu_id j \<Longrightarrow> i = j"
  by (auto simp: ppu_id_def Sprintf_d_nonneg dest: fmt_nat_inj)

section \<open>Registry initialisation: proofs\<close>

lemma initDevices_loop_inv:
  assumes "0 \<le> i"
  shows "case initDevices_loop i p s of (p', s') \<Rightarrow>
     deviceCount p' = deviceCount p \<and>
     (\<forall>j. i \<le> j \<and> j < deviceCount p \<longrightarrow>
        devices p' (ppu_id j) = Some (fresh s + nat (j - i)) \<and>
        cells s' (fresh s + nat (j - i)) = \<lparr>ID = ppu_id j, Health = Healthy\<rparr>) \<and>
     (\<forall>k. k \<notin> ppu_id ` {i..<deviceCount p} \<longrightarrow> devices p' k = devices p k) \<and>
     (\<forall>a. a < fresh s \<longrightarrow> cells s' a = cells s a) \<and>
     fresh s' = fresh s + nat (deviceCount p - i)"
  using assms
proof (induction i p s rule: initDevices_loop.induct)
  case (1 i p s)
  show ?case
  proof (cases "i < deviceCount p")
    case False
    then show ?thesis by (auto simp add: initDevices_loop.simps [of i p s])
  next
    case True
    define s1 where "s1 = s\<lparr>cells := (cells s)(fresh s := \<lparr>ID = ppu_id i, Health = Healthy\<rparr>), fresh := Suc (fresh s)\<rparr>"
    define p1 where "p1 = p\<lparr>devices := (devices p)(ppu_id i \<mapsto> fresh s)\<rparr>"
    have unf: "initDevices_loop i p s = initDevices_loop (i + 1) p1 s1"
      using True by (simp add: initDevices_loop.simps [of i p s] new_Device_def s1_def p1_def Let_def)
    have nd: "new_Device \<lparr>ID = ppu_id i, Health = Healthy\<rparr> s = (fresh s, s1)"
      by (simp add: new_Device_def s1_def)
    have IH: "case initDevices_loop (i + 1) p1 s1 of (p', s') \<Rightarrow>
     deviceCount p' = deviceCount p1 \<and>
     (\<forall>j. i + 1 \<le> j \<and> j < deviceCount p1 \<longrightarrow>
        devices p' (ppu_id j) = Some (fresh s1 + nat (j - (i + 1))) \<and>
        cells s' (fresh s1 + nat (j - (i + 1))) = \<lparr>ID = ppu_id j, Health = Healthy\<rparr>) \<and>
     (\<forall>k. k \<notin> ppu_id ` {i + 1..<deviceCount p1} \<longrightarrow> devices p' k = devices p1 k) \<and>
     (\<forall>a. a < fresh s1 \<longrightarrow> cells s' a = cells s1 a) \<and>
     fresh s' = fresh s1 + nat (deviceCount p1 - (i + 1))"
      using "1.IH" [OF True refl nd [symmetric] refl] "1.prems" by (simp add: p1_def)
    obtain p' s' where r: "initDevices_loop (i + 1) p1 s1 = (p', s')"
      by (cases "initDevices_loop (i + 1) p1 s1")
    have dc: "deviceCount p1 = deviceCount p" by (simp add: p1_def)
    have fr: "fresh s1 = Suc (fresh s)" by (simp add: s1_def)
    from IH r dc fr have
      a: "deviceCount p' = deviceCount p" and
      b: "\<And>j. i + 1 \<le> j \<Longrightarrow> j < deviceCount p \<Longrightarrow>
        devices p' (ppu_id j) = Some (Suc (fresh s) + nat (j - (i + 1))) \<and>
        cells s' (Suc (fresh s) + nat (j - (i + 1))) = \<lparr>ID = ppu_id j, Health = Healthy\<rparr>" and
      c: "\<And>k. k \<notin> ppu_id ` {i + 1..<deviceCount p} \<Longrightarrow> devices p' k = devices p1 k" and
      d: "\<And>a. a < Suc (fresh s) \<Longrightarrow> cells s' a = cells s1 a" and
      e: "fresh s' = Suc (fresh s) + nat (deviceCount p - (i + 1))"
      by simp_all
    have notin: "ppu_id i \<notin> ppu_id ` {i + 1..<deviceCount p}"
    proof
      assume "ppu_id i \<in> ppu_id ` {i + 1..<deviceCount p}"
      then obtain j where "i + 1 \<le> j" "ppu_id i = ppu_id j" by auto
      with "1.prems" ppu_id_inj [of i j] show False by simp
    qed
    have g1: "\<And>j. i \<le> j \<Longrightarrow> j < deviceCount p \<Longrightarrow>
        devices p' (ppu_id j) = Some (fresh s + nat (j - i)) \<and>
        cells s' (fresh s + nat (j - i)) = \<lparr>ID = ppu_id j, Health = Healthy\<rparr>"
    proof -
      fix j assume j: "i \<le> j" "j < deviceCount p"
      show "devices p' (ppu_id j) = Some (fresh s + nat (j - i)) \<and>
        cells s' (fresh s + nat (j - i)) = \<lparr>ID = ppu_id j, Health = Healthy\<rparr>"
      proof (cases "j = i")
        case True
        have "devices p' (ppu_id i) = devices p1 (ppu_id i)" using c [OF notin] .
        moreover have "cells s' (fresh s) = cells s1 (fresh s)" using d [of "fresh s"] by simp
        ultimately show ?thesis using True by (simp add: p1_def s1_def)
      next
        case False
        with j have j1: "i + 1 \<le> j" by simp
        have eq: "Suc (fresh s) + nat (j - (i + 1)) = fresh s + nat (j - i)" using j1 by simp
        show ?thesis using b [OF j1 j(2)] unfolding eq .
      qed
    qed
    have g2: "\<And>k. k \<notin> ppu_id ` {i..<deviceCount p} \<Longrightarrow> devices p' k = devices p k"
    proof -
      fix k assume k: "k \<notin> ppu_id ` {i..<deviceCount p}"
      have sub: "{i + 1..<deviceCount p} \<subseteq> {i..<deviceCount p}" by auto
      from k sub have "k \<notin> ppu_id ` {i + 1..<deviceCount p}" by blast
      then have "devices p' k = devices p1 k" by (rule c)
      moreover from k True have "k \<noteq> ppu_id i" by auto
      ultimately show "devices p' k = devices p k" by (simp add: p1_def)
    qed
    have g3: "\<And>a. a < fresh s \<Longrightarrow> cells s' a = cells s a"
      using d by (simp add: s1_def)
    have g4: "fresh s' = fresh s + nat (deviceCount p - i)"
      using e True by simp
    show ?thesis
      unfolding unf r using a g1 g2 g3 g4 by simp
  qed
qed



lemma ppu_id_inj_on: "inj_on ppu_id {0..<n}"
  by (rule inj_onI) (auto dest: ppu_id_inj)

lemma initDevices_loop_registry:
  assumes "0 \<le> deviceCount p" and "devices p = Map.empty"
    and "initDevices_loop 0 p s = (p', s')"
  shows "registry p' s' =
     (\<lambda>k. if k \<in> ppu_id ` {0..<deviceCount p} then Some \<lparr>ID = k, Health = Healthy\<rparr> else None)"
proof
  fix k
  from initDevices_loop_inv [of 0 p s] assms(3) have
    g1: "\<And>j. 0 \<le> j \<Longrightarrow> j < deviceCount p \<Longrightarrow>
        devices p' (ppu_id j) = Some (fresh s + nat j) \<and>
        cells s' (fresh s + nat j) = \<lparr>ID = ppu_id j, Health = Healthy\<rparr>" and
    g2: "\<And>k. k \<notin> ppu_id ` {0..<deviceCount p} \<Longrightarrow> devices p' k = devices p k"
    by simp_all
  show "registry p' s' k =
     (if k \<in> ppu_id ` {0..<deviceCount p} then Some \<lparr>ID = k, Health = Healthy\<rparr> else None)"
  proof (cases "k \<in> ppu_id ` {0..<deviceCount p}")
    case True
    then obtain j where j: "0 \<le> j" "j < deviceCount p" "k = ppu_id j" by auto
    with g1 [of j] True show ?thesis by (simp add: registry_def)
  next
    case False
    with g2 [of k] assms(2) show ?thesis by (simp add: registry_def)
  qed
qed

text \<open>
  Claim C6. For every configured count \<open>n \<ge> 0\<close>, initialising the registry of a new
  plugin succeeds and yields exactly \<open>n\<close> instances, all Healthy, whose ids are
  \<open>ppu-0 .. ppu-(n-1)\<close>, each object carrying its own id. Initialisation returns no
  error for any count \<open>m\<close> at all, so a failure can only go with a negative count,
  and count 0 gives the empty registry.
\<close>

theorem initDevices_registry:
  "(\<exists>r. initDevices (NewPPUDevicePlugin rn m sp) s = Inr r) \<and>
   (0 \<le> n \<longrightarrow>
     (\<exists>p' s'. initDevices (NewPPUDevicePlugin rn n sp) s = Inr (p', s') \<and>
        registry p' s' =
          (\<lambda>k. if k \<in> ppu_id ` {0..<n} then Some \<lparr>ID = k, Health = Healthy\<rparr> else None) \<and>
        card (dom (registry p' s')) = nat n))"
proof (intro conjI impI)
  show "\<exists>r. initDevices (NewPPUDevicePlugin rn m sp) s = Inr r"
    by (simp add: initDevices_def)
next
  assume n: "0 \<le> n"
  let ?p = "NewPPUDevicePlugin rn n sp"
  obtain p' s' where r: "initDevices_loop 0 ?p s = (p', s')"
    by (cases "initDevices_loop 0 ?p s")
  have reg: "registry p' s' =
     (\<lambda>k. if k \<in> ppu_id ` {0..<n} then Some \<lparr>ID = k, Health = Healthy\<rparr> else None)"
    using initDevices_loop_registry [of ?p s p' s'] n r by (simp add: NewPPUDevicePlugin_def)
  have "dom (registry p' s') = ppu_id ` {0..<n}"
    unfolding reg by (auto split: if_splits)
  then have "card (dom (registry p' s')) = card {0..<n}"
    by (simp add: card_image ppu_id_inj_on)
  then have "card (dom (registry p' s')) = nat n" by simp
  with reg r show "\<exists>p' s'. initDevices ?p s = Inr (p', s') \<and>
        registry p' s' =
          (\<lambda>k. if k \<in> ppu_id ` {0..<n} then Some \<lparr>ID = k, Health = Healthy\<rparr> else None) \<and>
        card (dom (registry p' s')) = nat n"
    by (simp add: initDevices_def)
qed

lemma ppu_ids_2: "ppu_id ` {0..<2} = {''ppu-0'', ''ppu-1''}"
proof -
  have "{0..<2::int} = {0, 1}" by auto
  then show ?thesis
    by (simp add: ppu_id_def Sprintf_d_def fmt_nat.simps [of 0] fmt_nat.simps [of "Suc 0"] digit_char_def)
qed

theorem initDevices_registry_witness:
  "(0::int) \<le> 2 \<and>
   (\<exists>p' s'. initDevices (NewPPUDevicePlugin ''alibabacloud.com/ppu'' 2 ''/tmp'') empty_store = Inr (p', s') \<and>
      registry p' s' ''ppu-0'' = Some \<lparr>ID = ''ppu-0'', Health = ''Healthy''\<rparr> \<and>
      registry p' s' ''ppu-1'' = Some \<lparr>ID = ''ppu-1'', Health = ''Healthy''\<rparr> \<and>
      registry p' s' ''ppu-2'' = None \<and>
      card (dom (registry p' s')) = 2)"
  using initDevices_registry [of "''alibabacloud.com/ppu''" 2 "''/tmp''" empty_store 2]
  by (auto simp add: ppu_ids_2 Healthy_def)

section \<open>Allocate: proofs\<close>

lemma example_is_initialised:
  "initDevices (NewPPUDevicePlugin ''alibabacloud.com/ppu'' 2 ''/tmp'') empty_store =
     Inr (example_plugin, example_store)"
  by (simp add: initDevices_def initDevices_loop.simps [of 0] initDevices_loop.simps [of 1]
      initDevices_loop.simps [of 2] NewPPUDevicePlugin_def new_Device_def empty_store_def
      example_plugin_def example_store_def ppu_id_def Sprintf_d_def fmt_nat.simps [of 0]
      fmt_nat.simps [of "Suc 0"] digit_char_def Let_def)

lemma allocatedDevices_loop_filter:
  "allocatedDevices_loop p s acc ids = acc @ filter (usable p s) ids"
  by (induction ids arbitrary: acc) (auto simp: usable_def registry_def split: option.splits)

lemma deviceSpec_loop_map:
  "deviceSpec_loop specs ids =
     specs @ map (\<lambda>d. \<lparr>ContainerPath = ''/dev/'' @ d, HostPath = ''/dev/null'', Permissions = ''rw''\<rparr>) ids"
  by (induction ids arbitrary: specs) auto

lemma Allocate_loop_map:
  "Allocate_loop p s responses reqs = responses @ map (containerAllocate p s) reqs"
  by (induction reqs arbitrary: responses) auto

lemma containerAllocate_eq:
  "containerAllocate p s c =
     \<lparr>Envs = [''PPU_DEVICE_COUNT'' \<mapsto> Sprintf_d (int (length (filter (usable p s) (DevicesIDs c)))),
              ''PPU_ALLOCATED_DEVICES'' \<mapsto> strings_Join (filter (usable p s) (DevicesIDs c)) '',''],
      Mounts = [],
      Devices = map (\<lambda>d. \<lparr>ContainerPath = ''/dev/'' @ d, HostPath = ''/dev/null'', Permissions = ''rw''\<rparr>)
                  (filter (usable p s) (DevicesIDs c)),
      Annotations = [''ppu.alibabacloud.com/allocated-devices'' \<mapsto>
                       strings_Join (filter (usable p s) (DevicesIDs c)) '','']\<rparr>"
  by (simp add: containerAllocate_def allocatedDevices_loop_filter deviceSpec_loop_map Let_def)

lemma allocated_ids_containerAllocate:
  "allocated_ids (containerAllocate p s c) = filter (usable p s) (DevicesIDs c)"
  by (simp add: containerAllocate_eq allocated_ids_def comp_def)

lemma Allocate_eq:
  "Allocate p s request =
     Inr \<lparr>AllocateResponse.ContainerResponses = map (containerAllocate p s) (AllocateRequest.ContainerRequests request)\<rparr>"
  by (simp add: Allocate_def Allocate_loop_map)

lemma count_env_containerAllocate:
  "Envs (containerAllocate p s c) ''PPU_DEVICE_COUNT'' =
     Some (Sprintf_d (int (length (filter (usable p s) (DevicesIDs c)))))"
  by (simp add: containerAllocate_eq)

lemma joined_env_containerAllocate:
  "Envs (containerAllocate p s c) ''PPU_ALLOCATED_DEVICES'' =
     Some (strings_Join (filter (usable p s) (DevicesIDs c)) '','')"
  by (simp add: containerAllocate_eq)

lemma list_all2_map_self: "(\<And>x. P x (f x)) \<Longrightarrow> list_all2 P xs (map f xs)"
  by (simp add: list_all2_map2 list_all2_same)

text \<open>
  Claim C1. Allocate is a pure filter. It returns a response, and for every container
  request the ids the response binds are exactly the requested ids that are in the
  registry with health Healthy, in the order requested: a subset of the requested ids,
  with absent and unhealthy ids left out. The \<^verbatim>\<open>PPU_DEVICE_COUNT\<close> variable is
  the number of allocated ids written in decimal, and reading the decimal back gives
  that number.
\<close>

theorem Allocate_pure_filter:
  "\<exists>response. Allocate p s request = Inr response \<and>
     list_all2
       (\<lambda>containerRequest containerResponse.
          allocated_ids containerResponse = filter (usable p s) (DevicesIDs containerRequest) \<and>
          set (allocated_ids containerResponse) =
            {d \<in> set (DevicesIDs containerRequest). usable p s d} \<and>
          set (allocated_ids containerResponse) \<subseteq> set (DevicesIDs containerRequest) \<and>
          Envs containerResponse ''PPU_DEVICE_COUNT'' =
            Some (Sprintf_d (int (length (allocated_ids containerResponse)))) \<and>
          (\<exists>count. Envs containerResponse ''PPU_DEVICE_COUNT'' = Some count \<and>
             parse_nat count = length (allocated_ids containerResponse)))
       (AllocateRequest.ContainerRequests request)
       (AllocateResponse.ContainerResponses response)"
proof -
  let ?P = "\<lambda>containerRequest containerResponse.
          allocated_ids containerResponse = filter (usable p s) (DevicesIDs containerRequest) \<and>
          set (allocated_ids containerResponse) =
            {d \<in> set (DevicesIDs containerRequest). usable p s d} \<and>
          set (allocated_ids containerResponse) \<subseteq> set (DevicesIDs containerRequest) \<and>
          Envs containerResponse ''PPU_DEVICE_COUNT'' =
            Some (Sprintf_d (int (length (allocated_ids containerResponse)))) \<and>
          (\<exists>count. Envs containerResponse ''PPU_DEVICE_COUNT'' = Some count \<and>
             parse_nat count = length (allocated_ids containerResponse))"
  let ?reqs = "AllocateRequest.ContainerRequests request"
  let ?r = "\<lparr>AllocateResponse.ContainerResponses = map (containerAllocate p s) ?reqs\<rparr>"
  have each: "?P c (containerAllocate p s c)" for c
    by (auto simp: allocated_ids_containerAllocate count_env_containerAllocate
        Sprintf_d_nonneg parse_nat_fmt_nat)
  have "list_all2 ?P ?reqs (map (containerAllocate p s) ?reqs)"
    by (rule list_all2_map_self) (rule each)
  then have "list_all2 ?P ?reqs (AllocateResponse.ContainerResponses ?r)"
    by simp
  moreover have "Allocate p s request = Inr ?r" by (rule Allocate_eq)
  ultimately show ?thesis by blast
qed


lemma usable_example:
  "usable example_plugin example_store d = (d = ''ppu-0'' \<or> d = ''ppu-1'')"
  by (simp add: usable_def registry_def example_plugin_def example_store_def)

lemma GetPreferredAllocation_loop_map:
  "GetPreferredAllocation_loop responses reqs = responses @ map containerPreferred reqs"
  by (induction reqs arbitrary: responses) auto

lemma GetPreferredAllocation_eq:
  "GetPreferredAllocation p request =
     Inr \<lparr>PreferredAllocationResponse.ContainerResponses =
            map containerPreferred (PreferredAllocationRequest.ContainerRequests request)\<rparr>"
  by (simp add: GetPreferredAllocation_def GetPreferredAllocation_loop_map)

lemma filter_none: "\<forall>d\<in>set xs. \<not> P d \<Longrightarrow> filter P xs = []"
  by (induction xs) auto

text \<open>
  Claim C8. Allocate and GetPreferredAllocation return a response and no error for
  every input, with one container response per container request. A container whose
  requested ids are all absent or unhealthy gets an empty allocation: no device
  binding, the count \<^verbatim>\<open>"0"\<close> and an empty id list.
\<close>

theorem no_call_failure:
  "(\<exists>response. Allocate p s request = Inr response \<and>
      list_all2
        (\<lambda>containerRequest containerResponse.
           (\<forall>d\<in>set (DevicesIDs containerRequest). \<not> usable p s d) \<longrightarrow>
             allocated_ids containerResponse = [] \<and>
             ContainerAllocateResponse.Devices containerResponse = [] \<and>
             Envs containerResponse ''PPU_DEVICE_COUNT'' = Some ''0'' \<and>
             Envs containerResponse ''PPU_ALLOCATED_DEVICES'' = Some [])
        (AllocateRequest.ContainerRequests request)
        (AllocateResponse.ContainerResponses response)) \<and>
   (\<exists>response. GetPreferredAllocation p prequest = Inr response \<and>
      length (PreferredAllocationResponse.ContainerResponses response) =
        length (PreferredAllocationRequest.ContainerRequests prequest))"
proof (rule conjI)
  let ?P = "\<lambda>containerRequest containerResponse.
           (\<forall>d\<in>set (DevicesIDs containerRequest). \<not> usable p s d) \<longrightarrow>
             allocated_ids containerResponse = [] \<and>
             ContainerAllocateResponse.Devices containerResponse = [] \<and>
             Envs containerResponse ''PPU_DEVICE_COUNT'' = Some ''0'' \<and>
             Envs containerResponse ''PPU_ALLOCATED_DEVICES'' = Some []"
  let ?reqs = "AllocateRequest.ContainerRequests request"
  let ?r = "\<lparr>AllocateResponse.ContainerResponses = map (containerAllocate p s) ?reqs\<rparr>"
  have each: "?P c (containerAllocate p s c)" for c
  proof
    assume "\<forall>d\<in>set (DevicesIDs c). \<not> usable p s d"
    then have "filter (usable p s) (DevicesIDs c) = []" by (rule filter_none)
    then show "allocated_ids (containerAllocate p s c) = [] \<and>
             ContainerAllocateResponse.Devices (containerAllocate p s c) = [] \<and>
             Envs (containerAllocate p s c) ''PPU_DEVICE_COUNT'' = Some ''0'' \<and>
             Envs (containerAllocate p s c) ''PPU_ALLOCATED_DEVICES'' = Some []"
      by (simp add: containerAllocate_eq allocated_ids_def Sprintf_d_def fmt_nat_0)
  qed
  have "list_all2 ?P ?reqs (map (containerAllocate p s) ?reqs)"
    by (rule list_all2_map_self) (rule each)
  then have "list_all2 ?P ?reqs (AllocateResponse.ContainerResponses ?r)"
    by simp
  moreover have "Allocate p s request = Inr ?r" by (rule Allocate_eq)
  ultimately show "\<exists>response. Allocate p s request = Inr response \<and>
      list_all2 ?P ?reqs (AllocateResponse.ContainerResponses response)"
    by blast
next
  show "\<exists>response. GetPreferredAllocation p prequest = Inr response \<and>
      length (PreferredAllocationResponse.ContainerResponses response) =
        length (PreferredAllocationRequest.ContainerRequests prequest)"
    by (simp add: GetPreferredAllocation_eq)
qed

theorem no_call_failure_witness:
  "\<not> usable example_plugin example_store ''ppu-9'' \<and>
   (\<exists>response c1 c2. Allocate example_plugin example_store example_request = Inr response \<and>
      AllocateResponse.ContainerResponses response = [c1, c2] \<and>
      ContainerAllocateResponse.Devices c1 = [] \<and>
      Envs c1 ''PPU_DEVICE_COUNT'' = Some ''0'' \<and>
      Envs c1 ''PPU_ALLOCATED_DEVICES'' = Some [])"
  using no_call_failure [of example_plugin example_store example_request
      "\<lparr>PreferredAllocationRequest.ContainerRequests = []\<rparr>"]
  by (fastforce simp: example_request_def usable_example list_all2_Cons1)

lemma count_list_filter: "count_list (filter P xs) d = (if P d then count_list xs d else 0)"
  by (induction xs) auto

lemma count_list_map_inj: "inj f \<Longrightarrow> count_list (map f xs) (f d) = count_list xs d"
  by (induction xs) (auto dest: injD)

lemma deviceSpec_inj:
  "inj (\<lambda>d. \<lparr>ContainerPath = ''/dev/'' @ d, HostPath = ''/dev/null'', Permissions = ''rw''\<rparr>)"
  by (rule injI) simp

text \<open>
  Claim C10. Allocate does not deduplicate. If a registered Healthy id occurs \<open>k\<close>
  times in a container request (in particular \<open>k > 1\<close>), the allocated list holds it
  \<open>k\<close> times, \<^verbatim>\<open>PPU_DEVICE_COUNT\<close> is the length of that list and so counts all
  \<open>k\<close> occurrences, \<^verbatim>\<open>PPU_ALLOCATED_DEVICES\<close> is the comma-joined list with the
  id \<open>k\<close> times in it, and \<open>k\<close> identical device bindings
  (container path \<^verbatim>\<open>/dev/<id>\<close>, host path \<^verbatim>\<open>/dev/null\<close>) are emitted.
\<close>

theorem Allocate_keeps_duplicates:
  assumes "Allocate p s request = Inr response"
    and "i < length (AllocateRequest.ContainerRequests request)"
    and "usable p s d"
    and "count_list (DevicesIDs (AllocateRequest.ContainerRequests request ! i)) d = k"
  shows "count_list (allocated_ids (AllocateResponse.ContainerResponses response ! i)) d = k \<and>
     k \<le> length (allocated_ids (AllocateResponse.ContainerResponses response ! i)) \<and>
     Envs (AllocateResponse.ContainerResponses response ! i) ''PPU_DEVICE_COUNT'' =
       Some (Sprintf_d (int (length (allocated_ids (AllocateResponse.ContainerResponses response ! i))))) \<and>
     Envs (AllocateResponse.ContainerResponses response ! i) ''PPU_ALLOCATED_DEVICES'' =
       Some (strings_Join (allocated_ids (AllocateResponse.ContainerResponses response ! i)) '','') \<and>
     count_list (ContainerAllocateResponse.Devices (AllocateResponse.ContainerResponses response ! i))
       \<lparr>ContainerPath = ''/dev/'' @ d, HostPath = ''/dev/null'', Permissions = ''rw''\<rparr> = k"
proof -
  let ?c = "AllocateRequest.ContainerRequests request ! i"
  let ?ids = "filter (usable p s) (DevicesIDs ?c)"
  from assms(1) have "AllocateResponse.ContainerResponses response =
      map (containerAllocate p s) (AllocateRequest.ContainerRequests request)"
    by (auto simp: Allocate_eq)
  with assms(2) have r: "AllocateResponse.ContainerResponses response ! i = containerAllocate p s ?c"
    by simp
  have ids: "allocated_ids (containerAllocate p s ?c) = ?ids"
    by (rule allocated_ids_containerAllocate)
  have cnt: "count_list ?ids d = k"
    using assms(3,4) by (simp add: count_list_filter)
  have le: "k \<le> length ?ids"
    using cnt count_le_length [of ?ids d] by simp
  have specs: "count_list (ContainerAllocateResponse.Devices (containerAllocate p s ?c))
       \<lparr>ContainerPath = ''/dev/'' @ d, HostPath = ''/dev/null'', Permissions = ''rw''\<rparr> = k"
    using cnt count_list_map_inj [OF deviceSpec_inj, of ?ids d]
    by (simp add: containerAllocate_eq)
  show ?thesis
    unfolding r ids
    using cnt le specs
    by (simp add: count_env_containerAllocate joined_env_containerAllocate)
qed

theorem Allocate_keeps_duplicates_witness:
  "\<exists>response c1 c2. Allocate example_plugin example_store example_request = Inr response \<and>
     AllocateResponse.ContainerResponses response = [c1, c2] \<and>
     (1::nat) < length (AllocateRequest.ContainerRequests example_request) \<and>
     usable example_plugin example_store ''ppu-0'' \<and>
     count_list (DevicesIDs (AllocateRequest.ContainerRequests example_request ! 1)) ''ppu-0'' = 2 \<and>
     count_list (allocated_ids c2) ''ppu-0'' = 2 \<and>
     Envs c2 ''PPU_DEVICE_COUNT'' = Some ''3'' \<and>
     Envs c2 ''PPU_ALLOCATED_DEVICES'' = Some ''ppu-0,ppu-1,ppu-0'' \<and>
     count_list (ContainerAllocateResponse.Devices c2)
       \<lparr>ContainerPath = ''/dev/ppu-0'', HostPath = ''/dev/null'', Permissions = ''rw''\<rparr> = 2"
proof -
  obtain response where r: "Allocate example_plugin example_store example_request = Inr response"
    by (simp add: Allocate_eq)
  have l: "(1::nat) < length (AllocateRequest.ContainerRequests example_request)"
    by (simp add: example_request_def)
  have u: "usable example_plugin example_store ''ppu-0''"
    by (simp add: usable_example)
  have c: "count_list (DevicesIDs (AllocateRequest.ContainerRequests example_request ! 1)) ''ppu-0'' = 2"
    by (simp add: example_request_def)
  from r have rs: "AllocateResponse.ContainerResponses response =
      [containerAllocate example_plugin example_store \<lparr>DevicesIDs = [''ppu-9'']\<rparr>,
       containerAllocate example_plugin example_store \<lparr>DevicesIDs = [''ppu-0'', ''ppu-1'', ''ppu-0'']\<rparr>]"
    by (auto simp: Allocate_eq example_request_def)
  have a: "allocated_ids (containerAllocate example_plugin example_store
             \<lparr>DevicesIDs = [''ppu-0'', ''ppu-1'', ''ppu-0'']\<rparr>) = [''ppu-0'', ''ppu-1'', ''ppu-0'']"
    by (simp add: allocated_ids_containerAllocate usable_example)
  have f3: "Sprintf_d 3 = ''3''"
    by (simp add: Sprintf_d_def fmt_nat.simps [of 3] digit_char_def)
  show ?thesis
    using Allocate_keeps_duplicates [OF r l u c] r l u c
    by (simp add: rs a f3)
qed

section \<open>GetPreferredAllocation: proofs\<close>

lemma mustInclude_loop_append: "mustInclude_loop acc xs = acc @ xs"
  by (induction xs arbitrary: acc) auto

lemma alreadySelected_loop_mem: "alreadySelected_loop d xs = (d \<in> set xs)"
  by (induction xs) auto

lemma available_loop_spec_walk: "available_loop n sel ds = spec_walk sel n ds"
proof (induction ds arbitrary: n sel)
  case Nil
  show ?case by (simp add: spec_walk.simps [of sel n "[]"])
next
  case (Cons d ds)
  show ?case
    by (simp add: spec_walk.simps [of sel n "d # ds"] alreadySelected_loop_mem Cons)
qed

lemma available_loop_shape:
  "\<exists>ys. available_loop n sel ds = sel @ ys \<and> distinct ys \<and> set ys \<inter> set sel = {} \<and>
        set ys \<subseteq> set ds \<and> int (length ys) \<le> max 0 n"
proof (induction ds arbitrary: n sel)
  case Nil
  show ?case by simp
next
  case (Cons d ds)
  show ?case
  proof (cases "n \<le> 0")
    case True
    then show ?thesis by simp
  next
    case pos: False
    show ?thesis
    proof (cases "d \<in> set sel")
      case True
      from Cons [of n sel] obtain ys where
        "available_loop n sel ds = sel @ ys" "distinct ys" "set ys \<inter> set sel = {}"
        "set ys \<subseteq> set ds" "int (length ys) \<le> max 0 n" by blast
      with pos True show ?thesis
        by (auto simp: alreadySelected_loop_mem)
    next
      case False
      from Cons [of "n - 1" "sel @ [d]"] obtain ys where ys:
        "available_loop (n - 1) (sel @ [d]) ds = (sel @ [d]) @ ys" "distinct ys"
        "set ys \<inter> set (sel @ [d]) = {}"
        "set ys \<subseteq> set ds" "int (length ys) \<le> max 0 (n - 1)" by blast
      have "available_loop n sel (d # ds) = sel @ (d # ys)"
        using pos False ys(1) by (simp add: alreadySelected_loop_mem)
      moreover have "distinct (d # ys)" using ys(2,3) by auto
      moreover have "set (d # ys) \<inter> set sel = {}" using ys(3) False by auto
      moreover have "set (d # ys) \<subseteq> set (d # ds)" using ys(4) by auto
      moreover have "int (length (d # ys)) \<le> max 0 n" using ys(5) pos by simp
      ultimately show ?thesis by blast
    qed
  qed
qed

lemma containerPreferred_eq:
  "DeviceIDs (containerPreferred c) =
     available_loop (sint (AllocationSize c) - int (length (MustIncludeDeviceIDs c)))
       (MustIncludeDeviceIDs c) (AvailableDeviceIDs c)"
  by (simp add: containerPreferred_def mustInclude_loop_append Let_def)

lemma containerPreferred_shape:
  "int (length (DeviceIDs (containerPreferred c))) \<le>
     max (sint (AllocationSize c)) (int (length (MustIncludeDeviceIDs c))) \<and>
   take (length (MustIncludeDeviceIDs c)) (DeviceIDs (containerPreferred c)) =
     MustIncludeDeviceIDs c \<and>
   distinct (drop (length (MustIncludeDeviceIDs c)) (DeviceIDs (containerPreferred c))) \<and>
   set (drop (length (MustIncludeDeviceIDs c)) (DeviceIDs (containerPreferred c))) \<inter>
     set (MustIncludeDeviceIDs c) = {} \<and>
   set (drop (length (MustIncludeDeviceIDs c)) (DeviceIDs (containerPreferred c))) \<subseteq>
     set (AvailableDeviceIDs c) \<and>
   set (MustIncludeDeviceIDs c) \<subseteq> set (DeviceIDs (containerPreferred c)) \<and>
   set (DeviceIDs (containerPreferred c)) \<subseteq>
     set (MustIncludeDeviceIDs c) \<union> set (AvailableDeviceIDs c)"
proof -
  let ?must = "MustIncludeDeviceIDs c"
  let ?n = "sint (AllocationSize c) - int (length ?must)"
  from available_loop_shape [of ?n ?must "AvailableDeviceIDs c"] obtain ys where ys:
    "available_loop ?n ?must (AvailableDeviceIDs c) = ?must @ ys" "distinct ys"
    "set ys \<inter> set ?must = {}" "set ys \<subseteq> set (AvailableDeviceIDs c)"
    "int (length ys) \<le> max 0 ?n" by blast
  have r: "DeviceIDs (containerPreferred c) = ?must @ ys"
    using ys(1) by (simp add: containerPreferred_eq)
  have len: "int (length (?must @ ys)) \<le> max (sint (AllocationSize c)) (int (length ?must))"
    using ys(5) by auto
  show ?thesis
    unfolding r using ys(2,3,4) len by auto
qed

text \<open>
  Claim C2, as amended. GetPreferredAllocation returns, per container, a list of at
  most max(desired count, number of must-include ids) ids. The list starts with the
  must-include ids exactly as given, so every must-include id is in it, as often as
  it occurs in the must-include list. The ids after them are distinct, are not
  must-include ids and come from the available ids; so no id outside the must-include
  and available ids is ever returned.
\<close>

theorem GetPreferredAllocation_bounds:
  "\<exists>response. GetPreferredAllocation p request = Inr response \<and>
     list_all2
       (\<lambda>c r.
          int (length (DeviceIDs r)) \<le>
            max (sint (AllocationSize c)) (int (length (MustIncludeDeviceIDs c))) \<and>
          take (length (MustIncludeDeviceIDs c)) (DeviceIDs r) = MustIncludeDeviceIDs c \<and>
          distinct (drop (length (MustIncludeDeviceIDs c)) (DeviceIDs r)) \<and>
          set (drop (length (MustIncludeDeviceIDs c)) (DeviceIDs r)) \<inter>
            set (MustIncludeDeviceIDs c) = {} \<and>
          set (drop (length (MustIncludeDeviceIDs c)) (DeviceIDs r)) \<subseteq>
            set (AvailableDeviceIDs c) \<and>
          set (MustIncludeDeviceIDs c) \<subseteq> set (DeviceIDs r) \<and>
          set (DeviceIDs r) \<subseteq> set (MustIncludeDeviceIDs c) \<union> set (AvailableDeviceIDs c))
       (PreferredAllocationRequest.ContainerRequests request)
       (PreferredAllocationResponse.ContainerResponses response)"
proof -
  let ?P = "\<lambda>c r.
          int (length (DeviceIDs r)) \<le>
            max (sint (AllocationSize c)) (int (length (MustIncludeDeviceIDs c))) \<and>
          take (length (MustIncludeDeviceIDs c)) (DeviceIDs r) = MustIncludeDeviceIDs c \<and>
          distinct (drop (length (MustIncludeDeviceIDs c)) (DeviceIDs r)) \<and>
          set (drop (length (MustIncludeDeviceIDs c)) (DeviceIDs r)) \<inter>
            set (MustIncludeDeviceIDs c) = {} \<and>
          set (drop (length (MustIncludeDeviceIDs c)) (DeviceIDs r)) \<subseteq>
            set (AvailableDeviceIDs c) \<and>
          set (MustIncludeDeviceIDs c) \<subseteq> set (DeviceIDs r) \<and>
          set (DeviceIDs r) \<subseteq> set (MustIncludeDeviceIDs c) \<union> set (AvailableDeviceIDs c)"
  let ?reqs = "PreferredAllocationRequest.ContainerRequests request"
  let ?r = "\<lparr>PreferredAllocationResponse.ContainerResponses = map containerPreferred ?reqs\<rparr>"
  have each: "?P c (containerPreferred c)" for c
    by (rule containerPreferred_shape)
  have "list_all2 ?P ?reqs (map containerPreferred ?reqs)"
    by (rule list_all2_map_self) (rule each)
  then have "list_all2 ?P ?reqs (PreferredAllocationResponse.ContainerResponses ?r)"
    by simp
  moreover have "GetPreferredAllocation p request = Inr ?r"
    by (rule GetPreferredAllocation_eq)
  ultimately show ?thesis by blast
qed

text \<open>
  The claim as stated fails: with must-include ids \<open>[a, a]\<close>, available ids \<open>[b]\<close> and
  allocation size 1 the preferred list is \<open>[a, a]\<close>, which has more than one id and
  holds \<open>a\<close> twice.
\<close>

theorem GetPreferredAllocation_counterexample:
  "GetPreferredAllocation example_plugin
     \<lparr>PreferredAllocationRequest.ContainerRequests = [repeated_must_request]\<rparr> =
     Inr \<lparr>PreferredAllocationResponse.ContainerResponses = [\<lparr>DeviceIDs = [''a'', ''a'']\<rparr>]\<rparr> \<and>
   sint (AllocationSize repeated_must_request) = 1 \<and>
   \<not> int (length [''a'', ''a'']) \<le> sint (AllocationSize repeated_must_request) \<and>
   ''a'' \<in> set (MustIncludeDeviceIDs repeated_must_request) \<and>
   count_list [''a'', ''a''] ''a'' = 2"
  by (simp add: GetPreferredAllocation_def containerPreferred_def repeated_must_request_def
      Let_def)

text \<open>
  Claim C4. The preferred list of every container is the one the stated algorithm
  computes: seed with the must-include ids in order, set remaining to the desired
  count minus the length of the result, walk the available ids in order appending each
  id not yet in the result and decrementing remaining, and stop as soon as
  remaining is at most 0. For available \<open>[a, b, c, d]\<close>, must-include \<open>[a]\<close> and
  desired count 2 the result is \<open>[a, b]\<close>.
\<close>

theorem GetPreferredAllocation_algorithm:
  "(\<exists>response. GetPreferredAllocation p request = Inr response \<and>
      map DeviceIDs (PreferredAllocationResponse.ContainerResponses response) =
        map (\<lambda>c. spec_preferred (AvailableDeviceIDs c) (MustIncludeDeviceIDs c)
                    (sint (AllocationSize c)))
          (PreferredAllocationRequest.ContainerRequests request)) \<and>
   GetPreferredAllocation p
     \<lparr>PreferredAllocationRequest.ContainerRequests =
        [\<lparr>AvailableDeviceIDs = [''a'', ''b'', ''c'', ''d''], MustIncludeDeviceIDs = [''a''],
          AllocationSize = 2\<rparr>]\<rparr> =
     Inr \<lparr>PreferredAllocationResponse.ContainerResponses = [\<lparr>DeviceIDs = [''a'', ''b'']\<rparr>]\<rparr>"
proof (rule conjI)
  have "DeviceIDs (containerPreferred c) =
      spec_preferred (AvailableDeviceIDs c) (MustIncludeDeviceIDs c) (sint (AllocationSize c))" for c
    by (simp add: containerPreferred_eq available_loop_spec_walk spec_preferred_def)
  then show "\<exists>response. GetPreferredAllocation p request = Inr response \<and>
      map DeviceIDs (PreferredAllocationResponse.ContainerResponses response) =
        map (\<lambda>c. spec_preferred (AvailableDeviceIDs c) (MustIncludeDeviceIDs c)
                    (sint (AllocationSize c)))
          (PreferredAllocationRequest.ContainerRequests request)"
    by (simp add: GetPreferredAllocation_eq comp_def)
next
  show "GetPreferredAllocation p
     \<lparr>PreferredAllocationRequest.ContainerRequests =
        [\<lparr>AvailableDeviceIDs = [''a'', ''b'', ''c'', ''d''], MustIncludeDeviceIDs = [''a''],
          AllocationSize = 2\<rparr>]\<rparr> =
     Inr \<lparr>PreferredAllocationResponse.ContainerResponses = [\<lparr>DeviceIDs = [''a'', ''b'']\<rparr>]\<rparr>"
    by (simp add: GetPreferredAllocation_def containerPreferred_def Let_def)
qed

section \<open>The health check: proofs\<close>

lemma healthCheck_loop_cells:
  "cells (fst (healthCheck_loop p ready s log ks)) =
     (\<lambda>a. if \<exists>k\<in>set ks. devices p k = Some a
          then (cells s a)\<lparr>Health := Healthy\<rparr> else cells s a)"
proof (induction ks arbitrary: s log)
  case Nil
  show ?case by simp
next
  case (Cons k ks)
  show ?case
  proof (cases "devices p k")
    case None
    then show ?thesis by (auto simp: Cons fun_eq_iff)
  next
    case (Some a)
    show ?thesis
    proof (cases "Health (cells s a) = Healthy")
      case True
      then have "(cells s a)\<lparr>Health := Healthy\<rparr> = cells s a" by simp
      with Some True show ?thesis by (auto simp: Cons fun_eq_iff)
    next
      case False
      with Some show ?thesis by (auto simp: Cons fun_eq_iff)
    qed
  qed
qed

lemma healthCheck_loop_fresh:
  "fresh (fst (healthCheck_loop p ready s log ks)) = fresh s"
  by (induction ks arbitrary: s log) (auto split: option.splits)

lemma healthCheck_loop_store:
  "fst (healthCheck_loop p ready s log ks) =
     s\<lparr>cells := (\<lambda>a. if a \<in> {a. \<exists>k\<in>set ks. devices p k = Some a}
                      then (cells s a)\<lparr>Health := Healthy\<rparr> else cells s a)\<rparr>"
  by (rule store.equality) (simp_all add: healthCheck_loop_cells healthCheck_loop_fresh)

lemma usable_after_heal:
  assumes "inj_on (devices p) (dom (devices p))" and "devices p k = Some a"
    and "k' \<in> dom (devices p)" and "k' \<noteq> k"
  shows "usable p (s\<lparr>cells := (cells s)(a := d)\<rparr>) k' = usable p s k'"
proof -
  from assms(3) obtain a' where a': "devices p k' = Some a'" by auto
  have "a' \<noteq> a"
  proof
    assume "a' = a"
    with a' assms(2) have "devices p k' = devices p k" by simp
    moreover from assms(2) have "k \<in> dom (devices p)" by auto
    ultimately have "k' = k" using inj_onD [OF assms(1), of k' k] assms(3) by simp
    with assms(4) show False by simp
  qed
  with a' show ?thesis by (simp add: usable_def registry_def)
qed

lemma healthCheck_loop_log:
  assumes "inj_on (devices p) (dom (devices p))"
    and "distinct ks" and "set ks \<subseteq> dom (devices p)"
  shows "snd (healthCheck_loop p ready s log ks) =
     log @ map (attempt_for p ready) (filter (\<lambda>k. \<not> usable p s k) ks)"
  using assms(2,3)
proof (induction ks arbitrary: s log)
  case Nil
  show ?case by simp
next
  case (Cons k ks)
  from Cons.prems obtain a where a: "devices p k = Some a" by auto
  from Cons.prems have d: "distinct ks" and sub: "set ks \<subseteq> dom (devices p)" and nk: "k \<notin> set ks"
    by auto
  show ?case
  proof (cases "Health (cells s a) = Healthy")
    case True
    with a have "usable p s k" by (simp add: usable_def registry_def)
    with a True show ?thesis by (simp add: Cons.IH [OF d sub])
  next
    case False
    let ?s1 = "s\<lparr>cells := (cells s)(a := (cells s a)\<lparr>Health := Healthy\<rparr>)\<rparr>"
    have nu: "\<not> usable p s k" using a False by (simp add: usable_def registry_def)
    have "filter (\<lambda>k'. \<not> usable p ?s1 k') ks = filter (\<lambda>k'. \<not> usable p s k') ks"
    proof (rule filter_cong [OF refl])
      fix k' assume "k' \<in> set ks"
      with sub nk have "k' \<in> dom (devices p)" "k' \<noteq> k" by auto
      then show "(\<not> usable p ?s1 k') = (\<not> usable p s k')"
        using usable_after_heal [OF assms(1) a] by simp
    qed
    with a False nu show ?thesis
      by (simp add: Cons.IH [OF d sub] attempt_for_def)
  qed
qed

text \<open>
  Claim C5. After the body of a health-check tick has run over the registry (in any
  map order, each entry an object of its own), every registry entry is its old entry
  with health Healthy, so every entry that was not Healthy has become Healthy; nothing
  else in the store changes. One send was attempted for each entry that was not
  Healthy, and for none of the others; the attempt delivered the event if a receiver
  was ready and skipped it if not. The body always runs to its end, and the store it
  leaves does not depend on which sends were delivered.
\<close>

theorem healthCheck_tick_heals:
  assumes "map_order p ks" and "inj_on (devices p) (dom (devices p))"
  shows "\<exists>s' log. healthCheck_tick p ready ks s = (s', log) \<and>
     registry p s' = (\<lambda>k. map_option (\<lambda>d. d\<lparr>Health := Healthy\<rparr>) (registry p s k)) \<and>
     s' = s\<lparr>cells := (\<lambda>a. if a \<in> ran (devices p)
                            then (cells s a)\<lparr>Health := Healthy\<rparr> else cells s a)\<rparr> \<and>
     log = map (attempt_for p ready) (filter (\<lambda>k. \<not> usable p s k) ks) \<and>
     fst (healthCheck_tick p ready' ks s) = s'"
proof -
  from assms(1) have d: "distinct ks" and eq: "set ks = dom (devices p)"
    by (simp_all add: map_order_def)
  have rn: "{a. \<exists>k\<in>set ks. devices p k = Some a} = ran (devices p)"
    unfolding eq ran_def by auto
  let ?s' = "s\<lparr>cells := (\<lambda>a. if a \<in> ran (devices p)
                            then (cells s a)\<lparr>Health := Healthy\<rparr> else cells s a)\<rparr>"
  have st: "fst (healthCheck_tick p r ks s) = ?s'" for r
    unfolding healthCheck_tick_def healthCheck_loop_store rn ..
  have lg: "snd (healthCheck_tick p ready ks s) =
      map (attempt_for p ready) (filter (\<lambda>k. \<not> usable p s k) ks)"
    unfolding healthCheck_tick_def
    using healthCheck_loop_log [OF assms(2) d, of ready s "[]"] eq by simp
  have reg: "registry p ?s' = (\<lambda>k. map_option (\<lambda>d. d\<lparr>Health := Healthy\<rparr>) (registry p s k))"
    by (rule ext) (auto simp: registry_def ran_def split: option.splits)
  have "healthCheck_tick p ready ks s = (?s', map (attempt_for p ready) (filter (\<lambda>k. \<not> usable p s k) ks))"
    using st [of ready] lg by (simp add: prod_eq_iff)
  with reg st [of ready'] show ?thesis by blast
qed

lemma example_map_order:
  "map_order example_plugin [''ppu-1'', ''ppu-0'']" "map_order example_plugin [''ppu-0'', ''ppu-1'']"
  by (auto simp: map_order_def example_plugin_def)

lemma example_inj: "inj_on (devices example_plugin) (dom (devices example_plugin))"
  by (auto simp: inj_on_def example_plugin_def split: if_splits)

lemma usable_sick: "usable example_plugin sick_store k = (k = ''ppu-0'')"
  by (simp add: usable_def registry_def example_plugin_def sick_store_def example_store_def
      Healthy_def Unhealthy_def)

theorem healthCheck_tick_heals_witness:
  "map_order example_plugin [''ppu-1'', ''ppu-0''] \<and>
   inj_on (devices example_plugin) (dom (devices example_plugin)) \<and>
   registry example_plugin sick_store ''ppu-1'' = Some \<lparr>ID = ''ppu-1'', Health = ''Unhealthy''\<rparr> \<and>
   (\<exists>s'. healthCheck_tick example_plugin (\<lambda>k. False) [''ppu-1'', ''ppu-0''] sick_store =
            (s', [Skipped 1]) \<and>
      registry example_plugin s' ''ppu-0'' = Some \<lparr>ID = ''ppu-0'', Health = ''Healthy''\<rparr> \<and>
      registry example_plugin s' ''ppu-1'' = Some \<lparr>ID = ''ppu-1'', Health = ''Healthy''\<rparr> \<and>
      fst (healthCheck_tick example_plugin (\<lambda>k. True) [''ppu-1'', ''ppu-0''] sick_store) = s')"
proof -
  have r: "registry example_plugin sick_store ''ppu-1'' = Some \<lparr>ID = ''ppu-1'', Health = ''Unhealthy''\<rparr>"
    "registry example_plugin sick_store ''ppu-0'' = Some \<lparr>ID = ''ppu-0'', Health = ''Healthy''\<rparr>"
    by (simp_all add: registry_def example_plugin_def sick_store_def example_store_def
        Healthy_def Unhealthy_def)
  have a: "attempt_for example_plugin (\<lambda>k. False) ''ppu-1'' = Skipped 1"
    by (simp add: attempt_for_def example_plugin_def)
  show ?thesis
    using healthCheck_tick_heals [OF example_map_order(1) example_inj,
        of "\<lambda>k. False" sick_store "\<lambda>k. True"]
      example_map_order(1) example_inj r
    by (auto simp: usable_sick a Healthy_def)
qed

section \<open>ListAndWatch: proofs\<close>

lemma snapshot_loop_map:
  "set ks \<subseteq> dom (devices p) \<Longrightarrow>
     snapshot_loop p ds ks = ds @ map (\<lambda>k. the (devices p k)) ks"
  by (induction ks arbitrary: ds) auto

lemma wire_snapshot:
  assumes "set ks \<subseteq> dom (devices p)"
  shows "wire s (snapshot p ks) = map (\<lambda>k. the (registry p s k)) ks"
proof -
  have "cells s (the (devices p k)) = the (registry p s k)" if "k \<in> set ks" for k
    using that assms by (auto simp: registry_def)
  then show ?thesis
    by (simp add: wire_def snapshot_def snapshot_loop_map [OF assms])
qed

subsection \<open>Registry objects carry their own id\<close>

lemma keyed_registry_ID:
  "keyed p s \<Longrightarrow> k \<in> dom (devices p) \<Longrightarrow> ID (the (registry p s k)) = k"
  by (auto simp: keyed_def registry_def)

lemma keyed_own:
  "keyed p s \<Longrightarrow> ev \<in> ran (devices p) \<Longrightarrow> devices p (ID (cells s ev)) = Some ev"
  by (auto simp: keyed_def ran_def)

lemma keyed_after_init:
  assumes "initDevices (NewPPUDevicePlugin rn n sp) s = Inr (p', s')"
  shows "keyed p' s'"
proof (cases "0 \<le> n")
  case True
  let ?p = "NewPPUDevicePlugin rn n sp"
  from assms have r: "initDevices_loop 0 ?p s = (p', s')" by (simp add: initDevices_def)
  have reg: "registry p' s' =
     (\<lambda>k. if k \<in> ppu_id ` {0..<n} then Some \<lparr>ID = k, Health = Healthy\<rparr> else None)"
    using initDevices_loop_registry [of ?p s p' s'] True r by (simp add: NewPPUDevicePlugin_def)
  show ?thesis
    unfolding keyed_def
  proof (intro allI impI)
    fix k a assume ka: "devices p' k = Some a"
    then have "registry p' s' k = Some (cells s' a)" by (simp add: registry_def)
    then have "(if k \<in> ppu_id ` {0..<n} then Some \<lparr>ID = k, Health = Healthy\<rparr> else None) =
        Some (cells s' a)"
      unfolding reg .
    then have "cells s' a = \<lparr>ID = k, Health = Healthy\<rparr>"
      by (simp split: if_splits)
    then show "ID (cells s' a) = k" by simp
  qed
next
  case False
  with assms have "p' = NewPPUDevicePlugin rn n sp"
    by (simp add: initDevices_def initDevices_loop.simps [of 0] NewPPUDevicePlugin_def)
  then show ?thesis by (simp add: keyed_def NewPPUDevicePlugin_def)
qed

lemma keyed_healthCheck_tick:
  "keyed p s \<Longrightarrow> keyed p (fst (healthCheck_tick p ready ks s))"
  by (simp add: keyed_def healthCheck_tick_def healthCheck_loop_cells)

lemma keyed_health_update: "keyed p s \<Longrightarrow> keyed p (health_update p s ev)"
  by (auto simp: keyed_def health_update_def split: option.splits)

lemma keyed_listing_ids:
  assumes "keyed p s" and "set ks \<subseteq> dom (devices p)"
  shows "map ID (map (\<lambda>k. the (registry p s k)) ks) = ks"
proof -
  have "map (\<lambda>k. ID (the (registry p s k))) ks = ks"
  proof (rule map_idI)
    fix x assume "x \<in> set ks"
    with assms(2) have "x \<in> dom (devices p)" by auto
    with assms(1) show "ID (the (registry p s x)) = x" by (rule keyed_registry_ID)
  qed
  then show ?thesis by (simp only: map_map comp_def)
qed

lemma keyed_listing_inj:
  assumes "keyed p s" and "set ks1 \<subseteq> dom (devices p)" and "set ks2 \<subseteq> dom (devices p)"
    and "map (\<lambda>k. the (registry p s k)) ks1 = map (\<lambda>k. the (registry p s k)) ks2"
  shows "ks1 = ks2"
proof -
  have "ks1 = map ID (map (\<lambda>k. the (registry p s k)) ks1)"
    using keyed_listing_ids [OF assms(1,2)] by (rule sym)
  also have "\<dots> = map ID (map (\<lambda>k. the (registry p s k)) ks2)"
    by (simp only: assms(4))
  also have "\<dots> = ks2"
    by (rule keyed_listing_ids [OF assms(1,3)])
  finally show ?thesis .
qed

lemma keyed_example: "keyed example_plugin example_store" "keyed example_plugin sick_store"
  by (auto simp: keyed_def example_plugin_def example_store_def sick_store_def split: if_splits)

subsection \<open>The snapshot\<close>

text \<open>
  Claim C7, as amended. Two snapshots built from the same registry state hold the same
  instances: each lists every registry entry once, in the map order of its own loop,
  so the two lists are equal as multisets and have as many elements as the registry
  has ids. They are the same list when the two loops visit the map in the same order,
  which Go does not promise; and when every registry object carries the id it is
  stored under, as after initialisation, they are the same list only then.
\<close>

theorem snapshot_same_instances:
  assumes "map_order p ks1" and "map_order p ks2"
  shows "mset (wire s (snapshot p ks1)) = mset (wire s (snapshot p ks2)) \<and>
     wire s (snapshot p ks1) = map (\<lambda>k. the (registry p s k)) ks1 \<and>
     wire s (snapshot p ks2) = map (\<lambda>k. the (registry p s k)) ks2 \<and>
     length (wire s (snapshot p ks1)) = card (dom (registry p s)) \<and>
     set (wire s (snapshot p ks1)) = ran (registry p s) \<and>
     (ks1 = ks2 \<longrightarrow> wire s (snapshot p ks1) = wire s (snapshot p ks2)) \<and>
     (keyed p s \<longrightarrow> (wire s (snapshot p ks1) = wire s (snapshot p ks2)) = (ks1 = ks2))"
proof -
  from assms have d: "distinct ks1" "distinct ks2"
    and e: "set ks1 = dom (devices p)" "set ks2 = dom (devices p)"
    by (simp_all add: map_order_def)
  have w1: "wire s (snapshot p ks1) = map (\<lambda>k. the (registry p s k)) ks1"
    by (rule wire_snapshot) (simp add: e)
  have w2: "wire s (snapshot p ks2) = map (\<lambda>k. the (registry p s k)) ks2"
    by (rule wire_snapshot) (simp add: e)
  have "mset ks1 = mset ks2"
    using d e by (simp add: set_eq_iff_mset_eq_distinct [symmetric])
  then have m: "mset (map (\<lambda>k. the (registry p s k)) ks1) = mset (map (\<lambda>k. the (registry p s k)) ks2)"
    by (metis mset_map)
  have dr: "dom (registry p s) = dom (devices p)"
    by (auto simp: registry_def split: option.splits)
  have l: "length ks1 = card (dom (registry p s))"
    using d(1) e(1) dr by (metis distinct_card)
  have r: "set (map (\<lambda>k. the (registry p s k)) ks1) = ran (registry p s)"
    unfolding set_map e(1) dr [symmetric] ran_def by force
  have same: "ks1 = ks2 \<longrightarrow>
      map (\<lambda>k. the (registry p s k)) ks1 = map (\<lambda>k. the (registry p s k)) ks2"
    by simp
  have only: "keyed p s \<longrightarrow>
      (map (\<lambda>k. the (registry p s k)) ks1 = map (\<lambda>k. the (registry p s k)) ks2) = (ks1 = ks2)"
  proof
    assume k: "keyed p s"
    show "(map (\<lambda>k. the (registry p s k)) ks1 = map (\<lambda>k. the (registry p s k)) ks2) = (ks1 = ks2)"
    proof
      assume "map (\<lambda>k. the (registry p s k)) ks1 = map (\<lambda>k. the (registry p s k)) ks2"
      then show "ks1 = ks2"
        using keyed_listing_inj [OF k, of ks1 ks2] e by simp
    next
      assume "ks1 = ks2"
      then show "map (\<lambda>k. the (registry p s k)) ks1 = map (\<lambda>k. the (registry p s k)) ks2"
        by simp
    qed
  qed
  show ?thesis
    unfolding w1 w2 using m l r same only by simp
qed

theorem snapshot_same_instances_witness:
  "map_order example_plugin [''ppu-0'', ''ppu-1''] \<and>
   map_order example_plugin [''ppu-1'', ''ppu-0''] \<and>
   mset (wire example_store (snapshot example_plugin [''ppu-0'', ''ppu-1''])) =
     mset (wire example_store (snapshot example_plugin [''ppu-1'', ''ppu-0''])) \<and>
   wire example_store (snapshot example_plugin [''ppu-0'', ''ppu-1'']) =
     [\<lparr>ID = ''ppu-0'', Health = ''Healthy''\<rparr>, \<lparr>ID = ''ppu-1'', Health = ''Healthy''\<rparr>] \<and>
   length (wire example_store (snapshot example_plugin [''ppu-0'', ''ppu-1''])) = 2 \<and>
   (wire example_store (snapshot example_plugin [''ppu-0'', ''ppu-1'']) =
      wire example_store (snapshot example_plugin [''ppu-1'', ''ppu-0''])) =
     ([''ppu-0'', ''ppu-1''] = [''ppu-1'', ''ppu-0''])"
proof -
  have r: "registry example_plugin example_store ''ppu-0'' = Some \<lparr>ID = ''ppu-0'', Health = ''Healthy''\<rparr>"
    "registry example_plugin example_store ''ppu-1'' = Some \<lparr>ID = ''ppu-1'', Health = ''Healthy''\<rparr>"
    by (simp_all add: registry_def example_plugin_def example_store_def Healthy_def)
  show ?thesis
    using snapshot_same_instances [OF example_map_order(2) example_map_order(1), of example_store]
      example_map_order keyed_example(1)
    by (simp add: r)
qed

text \<open>
  The claim as stated fails: the registry of two devices, listed once in the order
  \<open>ppu-0, ppu-1\<close> and once in the order \<open>ppu-1, ppu-0\<close>, both orders a Go map loop may
  take, gives two different instance lists.
\<close>

theorem snapshot_counterexample:
  "map_order example_plugin [''ppu-0'', ''ppu-1''] \<and>
   map_order example_plugin [''ppu-1'', ''ppu-0''] \<and>
   wire example_store (snapshot example_plugin [''ppu-0'', ''ppu-1'']) =
     [\<lparr>ID = ''ppu-0'', Health = ''Healthy''\<rparr>, \<lparr>ID = ''ppu-1'', Health = ''Healthy''\<rparr>] \<and>
   wire example_store (snapshot example_plugin [''ppu-1'', ''ppu-0'']) =
     [\<lparr>ID = ''ppu-1'', Health = ''Healthy''\<rparr>, \<lparr>ID = ''ppu-0'', Health = ''Healthy''\<rparr>] \<and>
   wire example_store (snapshot example_plugin [''ppu-0'', ''ppu-1'']) \<noteq>
     wire example_store (snapshot example_plugin [''ppu-1'', ''ppu-0''])"
  using example_map_order
  by (simp add: wire_def snapshot_def example_plugin_def example_store_def Healthy_def)

subsection \<open>Handling a health event\<close>

lemma health_update_cells:
  "cells (health_update p s ev) =
     (\<lambda>a. if devices p (ID (cells s ev)) = Some a
          then (cells s a)\<lparr>Health := Health (cells s ev)\<rparr> else cells s a)"
  by (auto simp: health_update_def fun_eq_iff split: option.splits)

lemma health_update_fresh: "fresh (health_update p s ev) = fresh s"
  by (simp add: health_update_def split: option.splits)

lemma health_update_unchanged_iff:
  "(health_update p s ev = s) =
     (case devices p (ID (cells s ev)) of
        None \<Rightarrow> True
      | Some a \<Rightarrow> Health (cells s a) = Health (cells s ev))"
proof (cases "devices p (ID (cells s ev))")
  case None
  then show ?thesis by (simp add: health_update_def)
next
  case (Some a)
  have "(health_update p s ev = s) = (cells (health_update p s ev) = cells s)"
    by (auto simp: health_update_fresh intro: store.equality)
  also have "\<dots> = ((cells s a)\<lparr>Health := Health (cells s ev)\<rparr> = cells s a)"
    unfolding health_update_cells using Some by (auto simp: fun_eq_iff)
  also have "\<dots> = (Health (cells s a) = Health (cells s ev))"
    by (metis Device.select_convs(2) Device.surjective Device.update_convs(2))
  finally show ?thesis using Some by simp
qed

lemma health_update_own: "devices p (ID (cells s ev)) = Some ev \<Longrightarrow> health_update p s ev = s"
  by (simp add: health_update_unchanged_iff)

lemma healthCheck_loop_attempts:
  "attempt_addr ` set (snd (healthCheck_loop p ready s log ks)) \<subseteq>
     attempt_addr ` set log \<union> {a. \<exists>k\<in>set ks. devices p k = Some a}"
proof (induction ks arbitrary: s log)
  case Nil
  show ?case by simp
next
  case (Cons k ks)
  show ?case
  proof (cases "devices p k")
    case None
    with Cons [of s log] show ?thesis by auto
  next
    case (Some a)
    show ?thesis
    proof (cases "Health (cells s a) = Healthy")
      case True
      with Some Cons [of s log] show ?thesis by auto
    next
      case False
      let ?s1 = "s\<lparr>cells := (cells s)(a := (cells s a)\<lparr>Health := Healthy\<rparr>)\<rparr>"
      let ?l1 = "log @ [if ready k then Delivered a else Skipped a]"
      have step: "healthCheck_loop p ready s log (k # ks) = healthCheck_loop p ready ?s1 ?l1 ks"
        using Some False by simp
      have IH: "attempt_addr ` set (snd (healthCheck_loop p ready ?s1 ?l1 ks)) \<subseteq>
          attempt_addr ` set ?l1 \<union> {a. \<exists>k\<in>set ks. devices p k = Some a}"
        by (rule Cons)
      have l1: "attempt_addr ` set ?l1 = attempt_addr ` set log \<union> {a}" by auto
      have "{a} \<union> {a. \<exists>k\<in>set ks. devices p k = Some a} \<subseteq>
          {a. \<exists>k\<in>set (k # ks). devices p k = Some a}"
        using Some by auto
      with IH show ?thesis unfolding step l1 by blast
    qed
  qed
qed

text \<open>Every pointer the health check tries to send points to a registry object.\<close>

lemma healthCheck_sends_registry_object:
  assumes "at \<in> set (snd (healthCheck_tick p ready ks s))"
  shows "attempt_addr at \<in> ran (devices p)"
proof -
  from healthCheck_loop_attempts [of p ready s "[]" ks] assms
  obtain k where "devices p k = Some (attempt_addr at)"
    by (auto simp: healthCheck_tick_def)
  then show ?thesis by (rule ranI)
qed

text \<open>
  So, in a registry whose objects carry their own ids, every such pointer is the
  registry's own object for the id it carries.
\<close>

lemma healthCheck_sends_own:
  assumes "keyed p s" and "at \<in> set (snd (healthCheck_tick p ready ks s))"
  shows "own_event p (fst (healthCheck_tick p ready ks s))
           (HealthRecv (attempt_addr at) ks' send_result)"
  using keyed_own [OF keyed_healthCheck_tick [OF assms(1)]
      healthCheck_sends_registry_object [OF assms(2)]]
  by (simp add: own_event_def)

lemma ListAndWatch_loop_own:
  "list_all (own_event p s) events \<Longrightarrow> fst (ListAndWatch_loop p s sent events) = s"
proof (induction events arbitrary: sent)
  case Nil
  show ?case by simp
next
  case (Cons e events)
  show ?case
  proof (cases e)
    case StopRecv
    then show ?thesis by simp
  next
    case (HealthRecv device ks send_result)
    with Cons.prems have "health_update p s device = s"
      by (simp add: own_event_def health_update_own)
    with HealthRecv Cons show ?thesis
      by (simp add: Let_def split: option.splits)
  qed
qed

text \<open>
  Claim C3. Allocate and GetPreferredAllocation take the registry and return no new
  one, and no operation after initialisation changes the map from ids to objects; the
  health check is the only operation that changes a health. Every pointer the health
  check sends as a Health Change Event points to a registry object. When the watch
  session handles such an event, in any state in which the registry objects carry
  their own ids (initialisation establishes this and every operation keeps it), the
  store is left unchanged: the assignment copies the health of the entry onto itself.
  The list the session then sends is the registry as it stands, entry by entry in
  the map order of that loop, whatever the event carried; if the send fails the
  session returns the error, still with the store unchanged. A session that receives
  only such events ends with the store it started with.
\<close>

theorem watch_session_reads_only:
  "(at \<in> set (snd (healthCheck_tick p ready ks0 s0)) \<longrightarrow>
      attempt_addr at \<in> ran (devices p)) \<and>
   (keyed p s \<and> ev \<in> ran (devices p) \<and> map_order p ks \<longrightarrow>
      health_update p s ev = s \<and>
      registry p (health_update p s ev) = registry p s \<and>
      ListAndWatch_loop p s sent (HealthRecv ev ks None # rest) =
        ListAndWatch_loop p s (sent @ [map (\<lambda>k. the (registry p s k)) ks]) rest \<and>
      ListAndWatch_loop p s sent (HealthRecv ev ks (Some err) # rest) =
        (s, sent, Returned (Some err))) \<and>
   (list_all (own_event p s) events \<longrightarrow>
      fst (ListAndWatch p s ks1 send_result events) = s)"
proof (intro conjI impI)
  assume "at \<in> set (snd (healthCheck_tick p ready ks0 s0))"
  then show "attempt_addr at \<in> ran (devices p)"
    by (rule healthCheck_sends_registry_object)
next
  assume h: "keyed p s \<and> ev \<in> ran (devices p) \<and> map_order p ks"
  then have own: "devices p (ID (cells s ev)) = Some ev" by (simp add: keyed_own)
  then show u: "health_update p s ev = s" by (rule health_update_own)
  then show "registry p (health_update p s ev) = registry p s" by simp
  from h have sub: "set ks \<subseteq> dom (devices p)" by (simp add: map_order_def)
  show "ListAndWatch_loop p s sent (HealthRecv ev ks None # rest) =
        ListAndWatch_loop p s (sent @ [map (\<lambda>k. the (registry p s k)) ks]) rest"
    by (simp add: u wire_snapshot [OF sub] Let_def)
  show "ListAndWatch_loop p s sent (HealthRecv ev ks (Some err) # rest) =
        (s, sent, Returned (Some err))"
    by (simp add: u Let_def)
next
  assume "list_all (own_event p s) events"
  then show "fst (ListAndWatch p s ks1 send_result events) = s"
    by (simp add: ListAndWatch_def ListAndWatch_loop_own Let_def split: option.splits)
qed

theorem watch_session_reads_only_witness:
  "Delivered 1 \<in> set (snd (healthCheck_tick example_plugin (\<lambda>k. True)
                             [''ppu-1'', ''ppu-0''] sick_store)) \<and>
   attempt_addr (Delivered 1) \<in> ran (devices example_plugin) \<and>
   map_order example_plugin [''ppu-0'', ''ppu-1''] \<and>
   health_update example_plugin example_store 1 = example_store \<and>
   ListAndWatch_loop example_plugin example_store [] [HealthRecv 1 [''ppu-0'', ''ppu-1''] None] =
     (example_store,
      [[\<lparr>ID = ''ppu-0'', Health = ''Healthy''\<rparr>, \<lparr>ID = ''ppu-1'', Health = ''Healthy''\<rparr>]],
      Blocked) \<and>
   list_all (own_event example_plugin example_store)
     [HealthRecv 1 [''ppu-0'', ''ppu-1''] None, StopRecv] \<and>
   fst (ListAndWatch example_plugin example_store [''ppu-1'', ''ppu-0''] None
          [HealthRecv 1 [''ppu-0'', ''ppu-1''] None, StopRecv]) = example_store"
proof -
  have sent: "Delivered 1 \<in> set (snd (healthCheck_tick example_plugin (\<lambda>k. True)
                             [''ppu-1'', ''ppu-0''] sick_store))"
    by (simp add: healthCheck_tick_def example_plugin_def sick_store_def example_store_def
        Healthy_def Unhealthy_def)
  have r: "map (\<lambda>k. the (registry example_plugin example_store k)) [''ppu-0'', ''ppu-1''] =
      [\<lparr>ID = ''ppu-0'', Health = ''Healthy''\<rparr>, \<lparr>ID = ''ppu-1'', Health = ''Healthy''\<rparr>]"
    by (simp add: registry_def example_plugin_def example_store_def Healthy_def)
  have own: "devices example_plugin (ID (cells example_store 1)) = Some 1"
    by (simp add: example_plugin_def example_store_def)
  have evs: "list_all (own_event example_plugin example_store)
     [HealthRecv 1 [''ppu-0'', ''ppu-1''] None, StopRecv]"
    using own by (simp add: own_event_def)
  note inst = watch_session_reads_only [where at = "Delivered 1" and p = example_plugin
      and ready = "\<lambda>k. True" and ?ks0.0 = "[''ppu-1'', ''ppu-0'']" and ?s0.0 = sick_store
      and s = example_store and ev = 1 and ks = "[''ppu-0'', ''ppu-1'']" and sent = "[]"
      and rest = "[]" and events = "[HealthRecv 1 [''ppu-0'', ''ppu-1''] None, StopRecv]"
      and ?ks1.0 = "[''ppu-1'', ''ppu-0'']" and send_result = None]
  have ran: "attempt_addr (Delivered 1) \<in> ran (devices example_plugin)"
    by (rule inst [THEN conjunct1, THEN mp, OF sent])
  then have ran1: "1 \<in> ran (devices example_plugin)" by simp
  have hyp: "keyed example_plugin example_store \<and> 1 \<in> ran (devices example_plugin) \<and>
      map_order example_plugin [''ppu-0'', ''ppu-1'']"
    using keyed_example(1) ran1 example_map_order(2) by (intro conjI)
  note step = inst [THEN conjunct2, THEN conjunct1, THEN mp, OF hyp]
  have u: "health_update example_plugin example_store 1 = example_store"
    by (rule step [THEN conjunct1])
  have "ListAndWatch_loop example_plugin example_store [] [HealthRecv 1 [''ppu-0'', ''ppu-1''] None] =
       ListAndWatch_loop example_plugin example_store
         ([] @ [map (\<lambda>k. the (registry example_plugin example_store k)) [''ppu-0'', ''ppu-1'']]) []"
    by (rule step [THEN conjunct2, THEN conjunct2, THEN conjunct1])
  then have l: "ListAndWatch_loop example_plugin example_store []
        [HealthRecv 1 [''ppu-0'', ''ppu-1''] None] =
     (example_store,
      [[\<lparr>ID = ''ppu-0'', Health = ''Healthy''\<rparr>, \<lparr>ID = ''ppu-1'', Health = ''Healthy''\<rparr>]],
      Blocked)"
    unfolding r by simp
  have f: "fst (ListAndWatch example_plugin example_store [''ppu-1'', ''ppu-0''] None
          [HealthRecv 1 [''ppu-0'', ''ppu-1''] None, StopRecv]) = example_store"
    by (rule inst [THEN conjunct2, THEN conjunct2, THEN mp, OF evs])
  show ?thesis
    by (intro conjI sent ran example_map_order(2) u l evs f)
qed

end
